theory Spec2Isabelle
  imports Main
begin

section \<open>Notification deduplication of the desktop shell (src/electron.js)\<close>

text \<open>
  The source keeps one process-wide JavaScript \<open>Map\<close> from notification tag to the clock
  reading of the last accepted display, and one function over it:
  \<^verbatim>\<open>
  const recentNotifications = new Map(); // tag -> timestamp
  const DEDUP_WINDOW_MS = 2000; // 2 seconds

  function isDuplicateNotification(tag) {
    if (!tag) return false;
    const now = Date.now();
    const lastShown = recentNotifications.get(tag);
    if (lastShown && (now - lastShown) < DEDUP_WINDOW_MS) {
      return true; // Duplicate within time window
    }
    recentNotifications.set(tag, now);
    if (recentNotifications.size > 100) {
      const cutoff = now - DEDUP_WINDOW_MS * 2;
      for (const [key, timestamp] of recentNotifications.entries()) {
        if (timestamp < cutoff) {
          recentNotifications.delete(key);
        }
      }
    }
    return false;
  }
  \<close>
  The embedding passes the map in and out explicitly and takes the value that
  \<open>Date.now()\<close> returns as the argument \<open>now\<close>. The function returns \<open>true\<close> for
  "duplicate" and \<open>false\<close> for "not a duplicate".
\<close>

subsection \<open>Data\<close>

text \<open>
  A JavaScript \<open>Map\<close> keeps its entries in insertion order and holds each key once. It is
  modelled as an association list in insertion order; \<open>wf_map\<close> states that keys are
  unique. Clock readings are integral millisecond counts, far inside the range where
  JavaScript numbers are exact, so they are modelled as \<open>int\<close>. The tag argument is a
  string or \<open>undefined\<close>, modelled as \<open>string option\<close>.
\<close>

type_synonym notif_map = "(string \<times> int) list"

definition wf_map :: "notif_map \<Rightarrow> bool" where
  "wf_map m = distinct (map fst m)"

definition DEDUP_WINDOW_MS :: int where
  "DEDUP_WINDOW_MS = 2000"

text \<open>\<open>Map.prototype.get\<close>: the value stored under the key, or \<open>undefined\<close> (\<open>None\<close>).\<close>

fun map_get :: "notif_map \<Rightarrow> string \<Rightarrow> int option" where
  "map_get [] key = None"
| "map_get ((k, v) # rest) key = (if k = key then Some v else map_get rest key)"

text \<open>
  \<open>Map.prototype.set\<close>: an existing key keeps its position and gets the new value, a new
  key is appended.
\<close>

fun map_set :: "notif_map \<Rightarrow> string \<Rightarrow> int \<Rightarrow> notif_map" where
  "map_set [] key val = [(key, val)]"
| "map_set ((k, v) # rest) key val =
     (if k = key then (key, val) # rest else (k, v) # map_set rest key val)"

text \<open>\<open>Map.prototype.delete\<close>: the entry of that key is removed.\<close>

fun map_delete :: "notif_map \<Rightarrow> string \<Rightarrow> notif_map" where
  "map_delete [] key = []"
| "map_delete ((k, v) # rest) key =
     (if k = key then map_delete rest key else (k, v) # map_delete rest key)"

definition map_size :: "notif_map \<Rightarrow> nat" where
  "map_size m = length m"

subsection \<open>The operation\<close>

text \<open>
  In \<open>isDuplicateNotification\<close> below, \<open>!tag\<close> is true for \<open>undefined\<close> and for the
  empty string; both return before the clock is read.
\<close>

text \<open>
  The guard \<open>lastShown && (now - lastShown) < DEDUP_WINDOW_MS\<close>: \<open>lastShown\<close> is tested for
  truthiness first, so \<open>undefined\<close> and the number \<open>0\<close> both make the guard false.
\<close>

definition within_window :: "int option \<Rightarrow> int \<Rightarrow> bool" where
  "within_window lastShown now =
     (case lastShown of
        None \<Rightarrow> False
      | Some ts \<Rightarrow> ts \<noteq> 0 \<and> now - ts < DEDUP_WINDOW_MS)"

text \<open>
  The cleanup loop \<open>for (const [key, timestamp] of recentNotifications.entries())\<close>: the
  first argument is what the iterator has still to visit, the last one the map itself.
  Deleting the entry under the cursor leaves the entries still to visit in place.
\<close>

fun cleanup_loop :: "(string \<times> int) list \<Rightarrow> int \<Rightarrow> notif_map \<Rightarrow> notif_map" where
  "cleanup_loop [] cutoff m = m"
| "cleanup_loop ((key, timestamp) # rest) cutoff m =
     (if timestamp < cutoff then cleanup_loop rest cutoff (map_delete m key)
      else cleanup_loop rest cutoff m)"

text \<open>The statements after the guard: write the record, then clean up if the map is large.\<close>

definition accept_tag :: "string \<Rightarrow> int \<Rightarrow> notif_map \<Rightarrow> notif_map" where
  "accept_tag tag now m =
     (let m1 = map_set m tag now in
      if map_size m1 > 100
      then (let cutoff = now - DEDUP_WINDOW_MS * 2 in cleanup_loop m1 cutoff m1)
      else m1)"

definition isDuplicateNotification ::
    "string option \<Rightarrow> int \<Rightarrow> notif_map \<Rightarrow> bool \<times> notif_map" where
  "isDuplicateNotification tag now m =
     (case tag of
        None \<Rightarrow> (False, m)
      | Some t \<Rightarrow>
          if t = [] then (False, m)
          else (let lastShown = map_get m t in
                if within_window lastShown now then (True, m)
                else (False, accept_tag t now m)))"

text \<open>
  Whether a call reaches the cleanup loop: the tag is truthy, the guard is false and the
  map holds more than 100 entries after the write (the conditions of the source, in its
  order).
\<close>

definition sweep_runs :: "string option \<Rightarrow> int \<Rightarrow> notif_map \<Rightarrow> bool" where
  "sweep_runs tag now m =
     (case tag of
        None \<Rightarrow> False
      | Some t \<Rightarrow>
          t \<noteq> [] \<and> \<not> within_window (map_get m t) now
          \<and> map_size (map_set m t now) > 100)"

text \<open>
  A sequence of calls, each with its tag and clock reading, threaded through the map.
  \<open>run_calls\<close> returns the decisions in call order and the final map.
\<close>

fun run_calls :: "(string option \<times> int) list \<Rightarrow> notif_map \<Rightarrow> bool list \<times> notif_map" where
  "run_calls [] m = ([], m)"
| "run_calls ((tag, now) # rest) m =
     (let r = isDuplicateNotification tag now m;
          rs = run_calls rest (snd r)
      in (fst r # fst rs, snd rs))"

text \<open>
  Requests that all carry a tag, as \<open>run_calls\<close> takes them.
\<close>

definition tagged_calls :: "(string \<times> int) list \<Rightarrow> (string option \<times> int) list" where
  "tagged_calls cs = map (\<lambda>(t, n). (Some t, n)) cs"

subsection \<open>Concrete maps and call sequences\<close>

text \<open>
  \<open>example_tag i\<close> is the tag \<open>t000\<close>, \<open>t001\<close>, ... for \<open>i < 1000\<close>. \<open>example_map\<close>
  holds 100 tags accepted 50 ms apart from clock reading 1000 on; \<open>example_calls\<close> are
  150 requests with distinct tags, 5000 ms apart.
\<close>

definition example_tag :: "nat \<Rightarrow> string" where
  "example_tag i =
     [CHR ''t'', ''0123456789'' ! (i div 100), ''0123456789'' ! (i div 10 mod 10),
      ''0123456789'' ! (i mod 10)]"

definition example_map :: notif_map where
  "example_map = map (\<lambda>i. (example_tag i, 1000 + 50 * int i)) [0..<100]"

definition example_calls :: "(string \<times> int) list" where
  "example_calls = map (\<lambda>i. (example_tag i, 1000 + 5000 * int i)) [0..<150]"

section \<open>The map operations\<close>

lemma map_get_set: "map_get (map_set m k v) k' = (if k' = k then Some v else map_get m k')"
  by (induction m) auto

lemma map_get_None_iff: "map_get m k = None \<longleftrightarrow> k \<notin> fst ` set m"
proof (induction m)
  case Nil
  then show ?case by simp
next
  case (Cons e m)
  then show ?case by (cases e) (simp add: eq_commute)
qed

lemma map_get_Some_mem: "map_get m k = Some v \<Longrightarrow> (k, v) \<in> set m"
  by (induction m) (auto split: if_splits)

lemma map_get_unique: "wf_map m \<Longrightarrow> (k, v) \<in> set m \<Longrightarrow> map_get m k = Some v"
  unfolding wf_map_def
proof (induction m)
  case Nil
  then show ?case by simp
next
  case (Cons e m)
  obtain k' v' where e: "e = (k', v')" by (cases e)
  show ?case
  proof (cases "k' = k")
    case True
    have "k \<notin> fst ` set m" using Cons.prems(1) e True by simp
    then have "(k, v) \<notin> set m" by force
    with Cons.prems(2) e True show ?thesis by simp
  next
    case False
    with Cons e show ?thesis by simp
  qed
qed

lemma map_set_absent: "map_get m k = None \<Longrightarrow> map_set m k v = m @ [(k, v)]"
  by (induction m) (auto split: if_splits)

lemma keys_map_set: "fst ` set (map_set m k v) = insert k (fst ` set m)"
proof (induction m)
  case Nil
  then show ?case by simp
next
  case (Cons e m)
  then show ?case by (cases e) (simp add: insert_commute)
qed

lemma wf_map_set: "wf_map m \<Longrightarrow> wf_map (map_set m k v)"
  unfolding wf_map_def
proof (induction m)
  case Nil
  then show ?case by simp
next
  case (Cons e m)
  obtain k' v' where e: "e = (k', v')" by (cases e)
  show ?case
  proof (cases "k' = k")
    case True
    with Cons.prems e show ?thesis by simp
  next
    case False
    have "k' \<notin> fst ` set (map_set m k v)"
      using Cons.prems e False by (simp add: keys_map_set)
    with Cons e False show ?thesis by simp
  qed
qed

lemma length_map_set_le: "length (map_set m k v) \<le> Suc (length m)"
  by (induction m) auto

lemma map_delete_filter: "map_delete m k = filter (\<lambda>e. fst e \<noteq> k) m"
  by (induction m) auto

lemma cleanup_loop_filter_gen:
  "cleanup_loop es cutoff m =
     filter (\<lambda>e. fst e \<notin> fst ` {e' \<in> set es. snd e' < cutoff}) m"
proof (induction es arbitrary: m)
  case Nil
  then show ?case by simp
next
  case (Cons e es)
  obtain key timestamp where e: "e = (key, timestamp)" by (cases e)
  show ?case
  proof (cases "timestamp < cutoff")
    case True
    have "{e' \<in> set ((key, timestamp) # es). snd e' < cutoff}
            = insert (key, timestamp) {e' \<in> set es. snd e' < cutoff}"
      using True by auto
    then show ?thesis
      using True e Cons.IH [of "map_delete m key"]
      by (auto simp: map_delete_filter intro: filter_cong)
  next
    case False
    have "{e' \<in> set ((key, timestamp) # es). snd e' < cutoff}
            = {e' \<in> set es. snd e' < cutoff}"
      using False by auto
    then show ?thesis
      using False e Cons.IH [of m] by simp
  qed
qed

lemma cleanup_loop_filter:
  assumes "wf_map m"
  shows "cleanup_loop m cutoff m = filter (\<lambda>e. \<not> snd e < cutoff) m"
proof -
  have "fst e \<notin> fst ` {e' \<in> set m. snd e' < cutoff} \<longleftrightarrow> \<not> snd e < cutoff"
    if "e \<in> set m" for e
  proof
    assume "fst e \<notin> fst ` {e' \<in> set m. snd e' < cutoff}"
    with that show "\<not> snd e < cutoff" by auto
  next
    assume n: "\<not> snd e < cutoff"
    show "fst e \<notin> fst ` {e' \<in> set m. snd e' < cutoff}"
    proof
      assume "fst e \<in> fst ` {e' \<in> set m. snd e' < cutoff}"
      then obtain e' where e': "e' \<in> set m" "snd e' < cutoff" "fst e' = fst e" by auto
      have "(fst e, snd e) \<in> set m" using that by simp
      then have "map_get m (fst e) = Some (snd e)"
        by (rule map_get_unique [OF assms])
      moreover have "(fst e, snd e') \<in> set m"
        using e'(1) e'(3) by (metis prod.collapse)
      then have "map_get m (fst e) = Some (snd e')"
        by (rule map_get_unique [OF assms])
      ultimately show False using n e' by simp
    qed
  qed
  then show ?thesis
    unfolding cleanup_loop_filter_gen by (intro filter_cong) auto
qed

lemma accept_tag_eq:
  assumes "wf_map m"
  shows "accept_tag t now m =
           (if map_size (map_set m t now) > 100
            then filter (\<lambda>e. \<not> snd e < now - 4000) (map_set m t now)
            else map_set m t now)"
  using cleanup_loop_filter [OF wf_map_set [OF assms]]
  by (simp add: accept_tag_def Let_def DEDUP_WINDOW_MS_def)

lemma map_get_filter_keep:
  "map_get m k = Some v \<Longrightarrow> P (k, v) \<Longrightarrow> map_get (filter P m) k = Some v"
  by (induction m) (auto split: if_splits)

lemma wf_map_filter: "wf_map m \<Longrightarrow> wf_map (filter P m)"
  unfolding wf_map_def by (simp add: distinct_map_filter)

lemma wf_accept_tag: "wf_map m \<Longrightarrow> wf_map (accept_tag t now m)"
  by (simp add: accept_tag_eq wf_map_filter wf_map_set)

lemma map_get_accept_tag:
  assumes "wf_map m"
  shows "map_get (accept_tag t now m) t = Some now"
proof -
  have g: "map_get (map_set m t now) t = Some now" by (simp add: map_get_set)
  have "map_get (filter (\<lambda>e. \<not> snd e < now - 4000) (map_set m t now)) t = Some now"
    by (rule map_get_filter_keep [OF g]) simp
  with g show ?thesis by (simp add: accept_tag_eq [OF assms])
qed

lemma wf_isDuplicateNotification:
  "wf_map m \<Longrightarrow> wf_map (snd (isDuplicateNotification tag now m))"
  by (simp add: isDuplicateNotification_def Let_def wf_accept_tag split: option.splits)

lemma length_accept_tag_le:
  assumes "wf_map m"
  shows "length (accept_tag t now m) \<le> Suc (length m)"
proof -
  have "length (filter (\<lambda>e. \<not> snd e < now - 4000) (map_set m t now))
          \<le> length (map_set m t now)"
    by (rule length_filter_le)
  also have "\<dots> \<le> Suc (length m)" by (rule length_map_set_le)
  finally show ?thesis
    using length_map_set_le [of m t now] by (simp add: accept_tag_eq [OF assms])
qed

lemma filter_key_single:
  "wf_map m \<Longrightarrow> map_get m k = Some v \<Longrightarrow> filter (\<lambda>e. fst e = k) m = [(k, v)]"
  unfolding wf_map_def
proof (induction m)
  case Nil
  then show ?case by simp
next
  case (Cons e m)
  obtain k' v' where e: "e = (k', v')" by (cases e)
  show ?case
  proof (cases "k' = k")
    case True
    have "k \<notin> fst ` set m" using Cons.prems(1) e True by simp
    then have "filter (\<lambda>e. fst e = k) m = []"
      by (auto simp: filter_empty_conv)
    with Cons.prems(2) e True show ?thesis by simp
  next
    case False
    with Cons e show ?thesis by simp
  qed
qed

lemma isDuplicateNotification_accept:
  "t \<noteq> [] \<Longrightarrow> \<not> within_window (map_get m t) now \<Longrightarrow>
   isDuplicateNotification (Some t) now m = (False, accept_tag t now m)"
  by (simp add: isDuplicateNotification_def)

lemma isDuplicateNotification_False_cases:
  "t \<noteq> [] \<Longrightarrow> isDuplicateNotification (Some t) now m = (False, m') \<Longrightarrow>
   \<not> within_window (map_get m t) now \<and> m' = accept_tag t now m"
  by (simp add: isDuplicateNotification_def Let_def split: if_splits)

section \<open>Sequences of calls\<close>

lemma run_calls_append:
  "snd (run_calls (xs @ ys) m) = snd (run_calls ys (snd (run_calls xs m)))"
  by (induction xs arbitrary: m) (auto simp: Let_def)

lemma run_calls_Cons_snd:
  "snd (run_calls ((tag, now) # rest) m)
     = snd (run_calls rest (snd (isDuplicateNotification tag now m)))"
  by (simp add: Let_def)

lemma length_isDuplicateNotification_le:
  "wf_map m \<Longrightarrow> length (snd (isDuplicateNotification tag now m)) \<le> Suc (length m)"
  using length_accept_tag_le [of m]
  by (simp add: isDuplicateNotification_def Let_def split: option.splits)

lemma length_run_calls_le:
  "wf_map m \<Longrightarrow> length (snd (run_calls calls m)) \<le> length m + length calls"
proof (induction calls arbitrary: m)
  case Nil
  then show ?case by simp
next
  case (Cons c calls)
  obtain tag now where c: "c = (tag, now)" by (cases c)
  let ?m1 = "snd (isDuplicateNotification tag now m)"
  have "length (snd (run_calls calls ?m1)) \<le> length ?m1 + length calls"
    by (rule Cons.IH [OF wf_isDuplicateNotification [OF Cons.prems]])
  also have "\<dots> \<le> Suc (length m) + length calls"
    using length_isDuplicateNotification_le [OF Cons.prems, of tag now] by simp
  finally show ?case
    unfolding c run_calls_Cons_snd by simp
qed

lemma fresh_call_below_threshold:
  assumes "t \<noteq> []" and "map_get m t = None" and "length m < 100"
  shows "isDuplicateNotification (Some t) now m = (False, m @ [(t, now)])"
  using assms
  by (simp add: isDuplicateNotification_def within_window_def accept_tag_def
        map_size_def map_set_absent)

lemma run_fresh_calls_below_threshold:
  assumes "distinct (map fst cs)" and "[] \<notin> set (map fst cs)"
    and "set (map fst cs) \<inter> fst ` set m = {}"
    and "length m + length cs \<le> 100"
  shows "snd (run_calls (tagged_calls cs) m) = m @ cs"
  using assms
proof (induction cs arbitrary: m)
  case Nil
  then show ?case by (simp add: tagged_calls_def)
next
  case (Cons c cs)
  obtain t n where c: "c = (t, n)" by (cases c)
  have t: "t \<noteq> []" using Cons.prems(2) c by auto
  have "t \<notin> fst ` set m" using Cons.prems(3) c by auto
  then have g: "map_get m t = None" by (simp add: map_get_None_iff)
  have l: "length m < 100" using Cons.prems(4) by simp
  have step: "isDuplicateNotification (Some t) n m = (False, m @ [(t, n)])"
    by (rule fresh_call_below_threshold [OF t g l])
  have d: "distinct (map fst cs)" using Cons.prems(1) by simp
  have e: "[] \<notin> set (map fst cs)" using Cons.prems(2) by simp
  have i: "set (map fst cs) \<inter> fst ` set (m @ [(t, n)]) = {}"
    using Cons.prems(1) Cons.prems(3) c by auto
  have s: "length (m @ [(t, n)]) + length cs \<le> 100" using Cons.prems(4) by simp
  have "snd (run_calls (tagged_calls cs) (m @ [(t, n)])) = (m @ [(t, n)]) @ cs"
    by (rule Cons.IH [OF d e i s])
  then show ?case
    using step by (simp add: c tagged_calls_def Let_def)
qed

lemma tagged_calls_append: "tagged_calls (xs @ ys) = tagged_calls xs @ tagged_calls ys"
  by (simp add: tagged_calls_def)


lemma run_calls_Cons_fst:
  "fst (run_calls ((tag, now) # rest) m)
     = fst (isDuplicateNotification tag now m)
       # fst (run_calls rest (snd (isDuplicateNotification tag now m)))"
  by (simp add: Let_def)

section \<open>Properties\<close>

subsection \<open>Calls without a usable tag, and the frame of suppressed calls\<close>

text \<open>
  C4. For every clock reading and every map, a call whose tag is \<open>undefined\<close> or the
  empty string returns "not a duplicate".
\<close>

theorem absent_tag_never_duplicate:
  "fst (isDuplicateNotification None now m) = False
   \<and> fst (isDuplicateNotification (Some []) now m) = False"
  by (simp add: isDuplicateNotification_def)

text \<open>
  C10. Whenever the call returns "duplicate", the map it leaves is the map it was given:
  nothing is inserted, updated or removed. The same holds on the path of an
  \<open>undefined\<close> or empty tag.
\<close>

theorem duplicate_leaves_map_unchanged:
  "(fst (isDuplicateNotification tag now m) = True
      \<longrightarrow> snd (isDuplicateNotification tag now m) = m)
   \<and> snd (isDuplicateNotification None now m) = m
   \<and> snd (isDuplicateNotification (Some []) now m) = m"
  by (simp add: isDuplicateNotification_def Let_def split: option.splits)

theorem duplicate_leaves_map_unchanged_witness:
  "fst (isDuplicateNotification (Some ''x'') 1500 [(''a'', 7), (''x'', 1000)]) = True
   \<and> snd (isDuplicateNotification (Some ''x'') 1500 [(''a'', 7), (''x'', 1000)])
       = [(''a'', 7), (''x'', 1000)]"
  using duplicate_leaves_map_unchanged [of "Some ''x''" 1500 "[(''a'', 7), (''x'', 1000)]"]
  by (simp add: isDuplicateNotification_def within_window_def DEDUP_WINDOW_MS_def)

subsection \<open>Acceptance\<close>

text \<open>
  C3. For a non-empty tag that is absent from the map, or whose stored reading satisfies
  \<open>now - lastShownAt \<ge> 2000\<close>, the call returns "not a duplicate", and the map afterwards
  holds exactly one record for the tag, with the reading \<open>now\<close>.
\<close>

theorem accept_writes_single_record:
  assumes "wf_map m" and "tag \<noteq> []"
    and "map_get m tag = None \<or> (\<exists>ts. map_get m tag = Some ts \<and> now - ts \<ge> 2000)"
  shows "fst (isDuplicateNotification (Some tag) now m) = False
         \<and> filter (\<lambda>e. fst e = tag) (snd (isDuplicateNotification (Some tag) now m))
             = [(tag, now)]"
proof -
  have nw: "\<not> within_window (map_get m tag) now"
    using assms(3) by (auto simp: within_window_def DEDUP_WINDOW_MS_def)
  have r: "isDuplicateNotification (Some tag) now m = (False, accept_tag tag now m)"
    by (rule isDuplicateNotification_accept [OF assms(2) nw])
  have "filter (\<lambda>e. fst e = tag) (accept_tag tag now m) = [(tag, now)]"
    by (rule filter_key_single [OF wf_accept_tag [OF assms(1)] map_get_accept_tag [OF assms(1)]])
  with r show ?thesis by simp
qed

theorem accept_writes_single_record_witness:
  "wf_map [(''a'', 7), (''x'', 1000)] \<and> ''x'' \<noteq> []
   \<and> map_get [(''a'', 7), (''x'', 1000)] ''x'' = Some 1000 \<and> (3000::int) - 1000 \<ge> 2000
   \<and> isDuplicateNotification (Some ''x'') 3000 [(''a'', 7), (''x'', 1000)]
       = (False, [(''a'', 7), (''x'', 3000)])
   \<and> filter (\<lambda>e. fst e = ''x'')
        (snd (isDuplicateNotification (Some ''x'') 3000 [(''a'', 7), (''x'', 1000)]))
       = [(''x'', 3000)]"
proof -
  have w: "wf_map [(''a'', 7), (''x'', 1000)]" by (simp add: wf_map_def)
  have n: "''x'' \<noteq> []" by simp
  have g: "map_get [(''a'', 7), (''x'', 1000)] ''x'' = None
           \<or> (\<exists>ts. map_get [(''a'', 7), (''x'', 1000)] ''x'' = Some ts \<and> 3000 - ts \<ge> 2000)"
    by simp
  have e: "isDuplicateNotification (Some ''x'') 3000 [(''a'', 7), (''x'', 1000)]
       = (False, [(''a'', 7), (''x'', 3000)])"
    by (simp add: isDuplicateNotification_def within_window_def DEDUP_WINDOW_MS_def
          accept_tag_def map_size_def)
  show ?thesis
    using accept_writes_single_record [OF w n g] w e by simp
qed

text \<open>
  C5. After tag \<open>x\<close> is accepted at reading 1000, a request for \<open>x\<close> at 2999 returns
  "duplicate" (and leaves the map as it is), and a request at 3000 returns
  "not a duplicate": the comparison with the window is strict.
\<close>

theorem window_boundary_strict:
  assumes "wf_map m"
    and "isDuplicateNotification (Some ''x'') 1000 m = (False, m1)"
  shows "isDuplicateNotification (Some ''x'') 2999 m1 = (True, m1)
         \<and> fst (isDuplicateNotification (Some ''x'') 3000 m1) = False"
proof -
  have "m1 = accept_tag ''x'' 1000 m"
    using isDuplicateNotification_False_cases [OF _ assms(2)] by simp
  then have g: "map_get m1 ''x'' = Some 1000"
    by (simp add: map_get_accept_tag [OF assms(1)])
  have "within_window (map_get m1 ''x'') 2999"
    using g by (simp add: within_window_def DEDUP_WINDOW_MS_def)
  moreover have "\<not> within_window (map_get m1 ''x'') 3000"
    using g by (simp add: within_window_def DEDUP_WINDOW_MS_def)
  ultimately show ?thesis
    by (simp add: isDuplicateNotification_def)
qed

theorem window_boundary_strict_witness:
  "wf_map [] \<and> isDuplicateNotification (Some ''x'') 1000 [] = (False, [(''x'', 1000)])
   \<and> isDuplicateNotification (Some ''x'') 2999 [(''x'', 1000)] = (True, [(''x'', 1000)])
   \<and> fst (isDuplicateNotification (Some ''x'') 3000 [(''x'', 1000)]) = False"
proof -
  have w: "wf_map []" by (simp add: wf_map_def)
  have a: "isDuplicateNotification (Some ''x'') 1000 [] = (False, [(''x'', 1000)])"
    by (simp add: isDuplicateNotification_def within_window_def accept_tag_def map_size_def)
  show ?thesis
    using window_boundary_strict [OF w a] w a by simp
qed

subsection \<open>The cleanup pass\<close>

text \<open>
  C6. On a call that accepts a non-empty tag: if the map holds more than 100 entries after
  the write, the map returned is the written map without the records whose reading is
  below \<open>now - 4000\<close>, twice the window (all of them are removed, all others stay, in
  order); if it holds 100 entries or fewer, the map returned is the written map.
\<close>

theorem cleanup_removes_exactly_stale_records:
  assumes "wf_map m" and "tag \<noteq> []"
    and "isDuplicateNotification (Some tag) now m = (False, m')"
  shows "m' = (if map_size (map_set m tag now) > 100
               then filter (\<lambda>e. \<not> snd e < now - 4000) (map_set m tag now)
               else map_set m tag now)"
proof -
  have "m' = accept_tag tag now m"
    using isDuplicateNotification_False_cases [OF assms(2) assms(3)] by simp
  then show ?thesis
    by (simp add: accept_tag_eq [OF assms(1)])
qed

theorem cleanup_removes_exactly_stale_records_witness:
  "wf_map example_map \<and> ''new'' \<noteq> []
   \<and> isDuplicateNotification (Some ''new'') 8000 example_map
       = (False, drop 60 example_map @ [(''new'', 8000)])
   \<and> map_size (map_set example_map ''new'' 8000) = 101
   \<and> drop 60 example_map @ [(''new'', 8000)]
       = filter (\<lambda>e. \<not> snd e < 8000 - 4000) (map_set example_map ''new'' 8000)"
proof -
  have w: "wf_map example_map" by code_simp
  have n: "''new'' \<noteq> []" by simp
  have a: "isDuplicateNotification (Some ''new'') 8000 example_map
             = (False, drop 60 example_map @ [(''new'', 8000)])"
    by code_simp
  have s: "map_size (map_set example_map ''new'' 8000) = 101" by code_simp
  show ?thesis
    using cleanup_removes_exactly_stale_records [OF w n a] w a s by simp
qed

text \<open>
  C7. A call that writes the record of its tag with the reading \<open>now\<close> returns a map
  that still holds that record: the cleanup pass of the same call does not remove it.
\<close>

theorem cleanup_keeps_fresh_record:
  assumes "wf_map m" and "tag \<noteq> []"
    and "isDuplicateNotification (Some tag) now m = (False, m')"
  shows "map_get m' tag = Some now \<and> (tag, now) \<in> set m'"
proof -
  have "m' = accept_tag tag now m"
    using isDuplicateNotification_False_cases [OF assms(2) assms(3)] by simp
  then have "map_get m' tag = Some now"
    by (simp add: map_get_accept_tag [OF assms(1)])
  then show ?thesis by (simp add: map_get_Some_mem)
qed

theorem cleanup_keeps_fresh_record_witness:
  "wf_map example_map \<and> ''new'' \<noteq> []
   \<and> sweep_runs (Some ''new'') 20000 example_map
   \<and> isDuplicateNotification (Some ''new'') 20000 example_map
       = (False, [(''new'', 20000)])
   \<and> map_get [(''new'', 20000)] ''new'' = Some 20000
   \<and> (''new'', 20000) \<in> set [(''new'', 20000)]"
proof -
  have w: "wf_map example_map" by code_simp
  have n: "''new'' \<noteq> []" by simp
  have r: "sweep_runs (Some ''new'') 20000 example_map" by code_simp
  have a: "isDuplicateNotification (Some ''new'') 20000 example_map
             = (False, [(''new'', 20000)])"
    by code_simp
  show ?thesis
    using cleanup_keeps_fresh_record [OF w n a] w r a by simp
qed

text \<open>
  C8. Starting from the empty map, 150 requests with distinct (non-empty) tags, each
  later reading more than 4000 ms after every earlier one, reach the cleanup loop at
  least once, and the map after the last call holds fewer than 150 entries.
\<close>

theorem bounded_memory_150_tags:
  assumes len: "length cs = 150"
    and dist: "distinct (map fst cs)"
    and nonempty: "[] \<notin> set (map fst cs)"
    and gaps: "sorted_wrt (\<lambda>a b. a + 4000 < b) (map snd cs)"
  shows "(\<exists>k<150. sweep_runs (Some (fst (cs ! k))) (snd (cs ! k))
                    (snd (run_calls (tagged_calls (take k cs)) [])))
         \<and> map_size (snd (run_calls (tagged_calls cs) [])) < 150"
proof -
  define xs where "xs = take 100 cs"
  define ys where "ys = drop 101 cs"
  obtain t n where c: "cs ! 100 = (t, n)" by (cases "cs ! 100")
  have split: "cs = xs @ (t, n) # ys"
    unfolding xs_def ys_def using len c id_take_nth_drop [of 100 cs] by simp
  have lx: "length xs = 100" unfolding xs_def using len by simp
  have ly: "length ys = 49" unfolding ys_def using len by simp
  have dx: "distinct (map fst xs)" using dist split by simp
  have ex: "[] \<notin> set (map fst xs)" using nonempty split by auto
  have m100: "snd (run_calls (tagged_calls xs) []) = xs"
    using run_fresh_calls_below_threshold [OF dx ex, of "[]"] lx by simp
  have t: "t \<noteq> []" using nonempty split by auto
  have "t \<notin> fst ` set xs" using dist split by auto
  then have g: "map_get xs t = None" by (simp add: map_get_None_iff)
  have w: "wf_map xs" using dx by (simp add: wf_map_def)
  have set101: "map_set xs t n = xs @ [(t, n)]" by (rule map_set_absent [OF g])
  have sweep: "sweep_runs (Some t) n xs"
    using t g lx by (simp add: sweep_runs_def within_window_def set101 map_size_def)
  have old: "\<forall>e \<in> set xs. snd e < n - 4000"
    using gaps split by (auto simp: sorted_wrt_append)
  then have "filter (\<lambda>e. \<not> snd e < n - 4000) xs = []"
    by (simp add: filter_empty_conv)
  then have acc: "accept_tag t n xs = [(t, n)]"
    using lx by (simp add: accept_tag_eq [OF w] set101 map_size_def)
  have step: "isDuplicateNotification (Some t) n xs = (False, [(t, n)])"
    using t g acc by (simp add: isDuplicateNotification_def within_window_def)
  have "snd (run_calls (tagged_calls cs) [])
          = snd (run_calls (tagged_calls ys) [(t, n)])"
    using m100 step
    by (simp add: split tagged_calls_append run_calls_append)
       (simp add: tagged_calls_def Let_def)
  moreover have "length (snd (run_calls (tagged_calls ys) [(t, n)]))
                   \<le> length [(t, n)] + length (tagged_calls ys)"
    by (rule length_run_calls_le) (simp add: wf_map_def)
  ultimately have "map_size (snd (run_calls (tagged_calls cs) [])) \<le> 50"
    using ly by (simp add: map_size_def tagged_calls_def)
  moreover have "sweep_runs (Some (fst (cs ! 100))) (snd (cs ! 100))
                   (snd (run_calls (tagged_calls (take 100 cs)) []))"
    using sweep m100 c by (simp add: xs_def)
  ultimately show ?thesis by (intro conjI exI [of _ 100]) simp_all
qed

theorem bounded_memory_150_tags_witness:
  "length example_calls = 150
   \<and> distinct (map fst example_calls)
   \<and> [] \<notin> set (map fst example_calls)
   \<and> sorted_wrt (\<lambda>a b. a + 4000 < b) (map snd example_calls)
   \<and> (\<exists>k<150. sweep_runs (Some (fst (example_calls ! k))) (snd (example_calls ! k))
                    (snd (run_calls (tagged_calls (take k example_calls)) [])))
   \<and> map_size (snd (run_calls (tagged_calls example_calls) [])) < 150"
proof -
  have l: "length example_calls = 150" by code_simp
  have d: "distinct (map fst example_calls)" by code_simp
  have e: "[] \<notin> set (map fst example_calls)" by code_simp
  have g: "sorted_wrt (\<lambda>a b. a + 4000 < b) (map snd example_calls)" by code_simp
  from bounded_memory_150_tags [OF l d e g] l d e g show ?thesis by blast
qed

subsection \<open>The stored reading 0\<close>

text \<open>
  The guard of the source tests \<open>lastShown\<close> for truthiness, and the number 0 is falsy: a
  record whose stored reading is 0 is treated as if the tag had no record. For every
  other stored reading the window is enforced, as the next lemmas show.
\<close>

lemma recent_record_suppressed:
  assumes "t \<noteq> []" and "map_get m t = Some ts" and "ts \<noteq> 0" and "now - ts < 2000"
  shows "isDuplicateNotification (Some t) now m = (True, m)"
  using assms
  by (simp add: isDuplicateNotification_def within_window_def DEDUP_WINDOW_MS_def)

lemma decision_from_elapsed_time:
  assumes "t \<noteq> []" and "map_get m t = Some ts" and "ts \<noteq> 0"
  shows "fst (isDuplicateNotification (Some t) now m) \<longleftrightarrow> now - ts < 2000"
  using assms
  by (simp add: isDuplicateNotification_def within_window_def DEDUP_WINDOW_MS_def)

lemma accepted_after_record_spaced:
  assumes "wf_map m" and "t \<noteq> []" and "map_get m t = Some a" and "a \<noteq> 0"
    and "sorted (a # ts)" and "0 \<notin> set ts"
    and "j < length ts"
    and "\<not> fst (run_calls (map (\<lambda>n. (Some t, n)) ts) m) ! j"
  shows "2000 \<le> ts ! j - a"
  using assms
proof (induction ts arbitrary: m a j)
  case Nil
  then show ?case by simp
next
  case (Cons n ts)
  let ?r = "isDuplicateNotification (Some t) n m"
  have na: "a \<le> n" using Cons.prems(5) by simp
  have n0: "n \<noteq> 0" using Cons.prems(6) by auto
  have z: "0 \<notin> set ts" using Cons.prems(6) by simp
  show ?case
  proof (cases "n - a < 2000")
    case True
    have r: "?r = (True, m)"
      by (rule recent_record_suppressed [OF Cons.prems(2) Cons.prems(3) Cons.prems(4) True])
    show ?thesis
    proof (cases j)
      case 0
      with Cons.prems(8) r show ?thesis by (simp add: Let_def)
    next
      case (Suc j')
      have s: "sorted (a # ts)" using Cons.prems(5) by simp
      have l: "j' < length ts" using Cons.prems(7) Suc by simp
      have d: "\<not> fst (run_calls (map (\<lambda>n. (Some t, n)) ts) m) ! j'"
        using Cons.prems(8) r Suc by (simp add: Let_def)
      have "2000 \<le> ts ! j' - a"
        by (rule Cons.IH [OF Cons.prems(1) Cons.prems(2) Cons.prems(3) Cons.prems(4) s z l d])
      with Suc show ?thesis by simp
    qed
  next
    case False
    have nw: "\<not> within_window (map_get m t) n"
      using False Cons.prems(3) by (simp add: within_window_def DEDUP_WINDOW_MS_def)
    have r: "?r = (False, accept_tag t n m)"
      by (rule isDuplicateNotification_accept [OF Cons.prems(2) nw])
    show ?thesis
    proof (cases j)
      case 0
      with False show ?thesis by simp
    next
      case (Suc j')
      have w: "wf_map (accept_tag t n m)" by (rule wf_accept_tag [OF Cons.prems(1)])
      have g: "map_get (accept_tag t n m) t = Some n"
        by (rule map_get_accept_tag [OF Cons.prems(1)])
      have s: "sorted (n # ts)" using Cons.prems(5) by simp
      have l: "j' < length ts" using Cons.prems(7) Suc by simp
      have d: "\<not> fst (run_calls (map (\<lambda>n. (Some t, n)) ts) (accept_tag t n m)) ! j'"
        using Cons.prems(8) r Suc by (simp add: Let_def)
      have "2000 \<le> ts ! j' - n"
        by (rule Cons.IH [OF w Cons.prems(2) g n0 s z l d])
      with na Suc show ?thesis by simp
    qed
  qed
qed

lemma accepted_calls_spaced:
  assumes "wf_map m" and "t \<noteq> []" and "sorted ts" and "0 \<notin> set ts"
    and "i < j" and "j < length ts"
    and "\<not> fst (run_calls (map (\<lambda>n. (Some t, n)) ts) m) ! i"
    and "\<not> fst (run_calls (map (\<lambda>n. (Some t, n)) ts) m) ! j"
  shows "2000 \<le> ts ! j - ts ! i"
  using assms
proof (induction ts arbitrary: m i j)
  case Nil
  then show ?case by simp
next
  case (Cons n ts)
  let ?r = "isDuplicateNotification (Some t) n m"
  obtain j' where j: "j = Suc j'" using Cons.prems(5) by (cases j) auto
  have l: "j' < length ts" using Cons.prems(6) j by simp
  have z: "0 \<notin> set ts" using Cons.prems(4) by simp
  have dj: "\<not> fst (run_calls (map (\<lambda>n. (Some t, n)) ts) (snd ?r)) ! j'"
    using Cons.prems(8) j by (simp add: Let_def)
  show ?case
  proof (cases i)
    case 0
    have "\<not> fst ?r" using Cons.prems(7) 0 by (simp add: Let_def)
    then have r: "?r = (False, accept_tag t n m)"
      using Cons.prems(2) by (simp add: isDuplicateNotification_def Let_def split: if_splits)
    have w: "wf_map (accept_tag t n m)" by (rule wf_accept_tag [OF Cons.prems(1)])
    have g: "map_get (accept_tag t n m) t = Some n"
      by (rule map_get_accept_tag [OF Cons.prems(1)])
    have n0: "n \<noteq> 0" using Cons.prems(4) by auto
    have s: "sorted (n # ts)" using Cons.prems(3) .
    have d: "\<not> fst (run_calls (map (\<lambda>n. (Some t, n)) ts) (accept_tag t n m)) ! j'"
      using dj r by simp
    have "2000 \<le> ts ! j' - n"
      by (rule accepted_after_record_spaced [OF w Cons.prems(2) g n0 s z l d])
    with 0 j show ?thesis by simp
  next
    case (Suc i')
    have w: "wf_map (snd ?r)" by (rule wf_isDuplicateNotification [OF Cons.prems(1)])
    have s: "sorted ts" using Cons.prems(3) by simp
    have ij: "i' < j'" using Cons.prems(5) j Suc by simp
    have di: "\<not> fst (run_calls (map (\<lambda>n. (Some t, n)) ts) (snd ?r)) ! i'"
      using Cons.prems(7) Suc by (simp add: Let_def)
    have "2000 \<le> ts ! j' - ts ! i'"
      by (rule Cons.IH [OF w Cons.prems(2) s z ij l di dj])
    with j Suc show ?thesis by simp
  qed
qed

text \<open>
  C2. For a non-empty tag stored with the reading \<open>lastShownAt\<close>, a call at \<open>now\<close> with
  \<open>now - lastShownAt < 2000\<close> is to return "duplicate" and leave the stored reading as
  it is. With the stored reading 0 and \<open>now = 500\<close> the source returns "not a
  duplicate" and overwrites the record with 500.
\<close>

theorem zero_timestamp_record_overwritten:
  "isDuplicateNotification (Some ''x'') 500 [(''x'', 0)] = (False, [(''x'', 500)])"
  by (simp add: isDuplicateNotification_def within_window_def accept_tag_def map_size_def)

text \<open>
  C9. Two calls with the same non-empty tag, both with a stored record and the same
  elapsed time, are to return the same decision. With 500 ms elapsed in both, the
  source accepts when the stored reading is 0 and suppresses when it is 1000.
\<close>

theorem equal_elapsed_different_decisions:
  "(500::int) - 0 = 1500 - 1000
   \<and> map_get [(''x'', 0)] ''x'' = Some 0
   \<and> map_get [(''x'', 1000)] ''x'' = Some 1000
   \<and> fst (isDuplicateNotification (Some ''x'') 500 [(''x'', 0)]) = False
   \<and> fst (isDuplicateNotification (Some ''x'') 1500 [(''x'', 1000)]) = True"
  by (simp add: isDuplicateNotification_def within_window_def accept_tag_def map_size_def
        DEDUP_WINDOW_MS_def)

text \<open>
  C1. In a sequence of calls with one non-empty tag and non-decreasing readings, no two
  calls that both return "not a duplicate" are to be less than 2000 ms apart. From the
  empty map, the calls at readings 0 and 500 both return "not a duplicate".
\<close>

theorem accepted_twice_within_window_at_zero:
  "run_calls [(Some ''x'', 0), (Some ''x'', 500)] [] = ([False, False], [(''x'', 500)])"
  by (simp add: isDuplicateNotification_def within_window_def accept_tag_def map_size_def)

end
